theory Spec2Isabelle
  imports Main "HOL-Library.Word" "HOL-Library.Multiset"
begin

unbundle bit_operations_syntax

section \<open>The streaming hash used by the digest worker\<close>

text \<open>
  \<^verbatim>\<open>compute_digest\<close> creates \<^verbatim>\<open>hashlib.sha512()\<close>, feeds it with
  \<^verbatim>\<open>update(chunk)\<close> and reads \<^verbatim>\<open>digest().hex()\<close>. The hash object is modelled as
  the streaming SHA-512 of FIPS 180-4: eight chaining words, the bytes of the current
  incomplete 128-byte block, and the number of bytes fed so far. \<open>sha512\<close> is the one-shot
  function on a whole message, the reference the streamed result is compared with.
\<close>

type_synonym byte = "8 word"
type_synonym w64 = "64 word"

definition K :: "w64 list" where
  "K = [0x428A2F98D728AE22, 0x7137449123EF65CD, 0xB5C0FBCFEC4D3B2F, 0xE9B5DBA58189DBBC,
    0x3956C25BF348B538, 0x59F111F1B605D019, 0x923F82A4AF194F9B, 0xAB1C5ED5DA6D8118,
    0xD807AA98A3030242, 0x12835B0145706FBE, 0x243185BE4EE4B28C, 0x550C7DC3D5FFB4E2,
    0x72BE5D74F27B896F, 0x80DEB1FE3B1696B1, 0x9BDC06A725C71235, 0xC19BF174CF692694,
    0xE49B69C19EF14AD2, 0xEFBE4786384F25E3, 0x0FC19DC68B8CD5B5, 0x240CA1CC77AC9C65,
    0x2DE92C6F592B0275, 0x4A7484AA6EA6E483, 0x5CB0A9DCBD41FBD4, 0x76F988DA831153B5,
    0x983E5152EE66DFAB, 0xA831C66D2DB43210, 0xB00327C898FB213F, 0xBF597FC7BEEF0EE4,
    0xC6E00BF33DA88FC2, 0xD5A79147930AA725, 0x06CA6351E003826F, 0x142929670A0E6E70,
    0x27B70A8546D22FFC, 0x2E1B21385C26C926, 0x4D2C6DFC5AC42AED, 0x53380D139D95B3DF,
    0x650A73548BAF63DE, 0x766A0ABB3C77B2A8, 0x81C2C92E47EDAEE6, 0x92722C851482353B,
    0xA2BFE8A14CF10364, 0xA81A664BBC423001, 0xC24B8B70D0F89791, 0xC76C51A30654BE30,
    0xD192E819D6EF5218, 0xD69906245565A910, 0xF40E35855771202A, 0x106AA07032BBD1B8,
    0x19A4C116B8D2D0C8, 0x1E376C085141AB53, 0x2748774CDF8EEB99, 0x34B0BCB5E19B48A8,
    0x391C0CB3C5C95A63, 0x4ED8AA4AE3418ACB, 0x5B9CCA4F7763E373, 0x682E6FF3D6B2B8A3,
    0x748F82EE5DEFB2FC, 0x78A5636F43172F60, 0x84C87814A1F0AB72, 0x8CC702081A6439EC,
    0x90BEFFFA23631E28, 0xA4506CEBDE82BDE9, 0xBEF9A3F7B2C67915, 0xC67178F2E372532B,
    0xCA273ECEEA26619C, 0xD186B8C721C0C207, 0xEADA7DD6CDE0EB1E, 0xF57D4F7FEE6ED178,
    0x06F067AA72176FBA, 0x0A637DC5A2C898A6, 0x113F9804BEF90DAE, 0x1B710B35131C471B,
    0x28DB77F523047D84, 0x32CAAB7B40C72493, 0x3C9EBE0A15C9BEBC, 0x431D67C49C100D4C,
    0x4CC5D4BECB3E42B6, 0x597F299CFC657E2A, 0x5FCB6FAB3AD6FAEC, 0x6C44198C4A475817]"

definition IV :: "w64 list" where
  "IV = [0x6A09E667F3BCC908, 0xBB67AE8584CAA73B, 0x3C6EF372FE94F82B, 0xA54FF53A5F1D36F1,
         0x510E527FADE682D1, 0x9B05688C2B3E6C1F, 0x1F83D9ABFB41BD6B, 0x5BE0CD19137E2179]"

definition Ch :: "w64 \<Rightarrow> w64 \<Rightarrow> w64 \<Rightarrow> w64" where
  "Ch x y z = (x AND y) XOR (NOT x AND z)"

definition Maj :: "w64 \<Rightarrow> w64 \<Rightarrow> w64 \<Rightarrow> w64" where
  "Maj x y z = (x AND y) XOR (x AND z) XOR (y AND z)"

definition Sum0 :: "w64 \<Rightarrow> w64" where
  "Sum0 x = word_rotr 28 x XOR word_rotr 34 x XOR word_rotr 39 x"

definition Sum1 :: "w64 \<Rightarrow> w64" where
  "Sum1 x = word_rotr 14 x XOR word_rotr 18 x XOR word_rotr 41 x"

definition sig0 :: "w64 \<Rightarrow> w64" where
  "sig0 x = word_rotr 1 x XOR word_rotr 8 x XOR drop_bit 7 x"

definition sig1 :: "w64 \<Rightarrow> w64" where
  "sig1 x = word_rotr 19 x XOR word_rotr 61 x XOR drop_bit 6 x"

definition be_word :: "byte list \<Rightarrow> w64" where
  "be_word bs = foldl (\<lambda>acc b. push_bit 8 acc OR ucast b) 0 bs"

fun block_words :: "nat \<Rightarrow> byte list \<Rightarrow> w64 list" where
  "block_words 0 bs = []"
| "block_words (Suc n) bs = be_word (take 8 bs) # block_words n (drop 8 bs)"

fun expand :: "nat \<Rightarrow> w64 list \<Rightarrow> w64 list" where
  "expand 0 ws = ws"
| "expand (Suc n) ws =
     (let t = length ws
      in expand n (ws @ [sig1 (ws ! (t - 2)) + ws ! (t - 7) + sig0 (ws ! (t - 15)) + ws ! (t - 16)]))"

fun round :: "w64 list \<Rightarrow> w64 \<times> w64 \<Rightarrow> w64 list" where
  "round [a, b, c, d, e, f, g, h] (k, w) =
     (let T1 = h + Sum1 e + Ch e f g + k + w;
          T2 = Sum0 a + Maj a b c
      in [T1 + T2, a, b, c, d + T1, e, f, g])"
| "round v _ = v"

definition compress :: "w64 list \<Rightarrow> byte list \<Rightarrow> w64 list" where
  "compress hs block =
     map2 (+) hs (foldl round hs (zip K (expand 64 (block_words 16 block))))"

function absorb :: "w64 list \<Rightarrow> byte list \<Rightarrow> w64 list \<times> byte list" where
  "absorb hs bs =
     (if 128 \<le> length bs then absorb (compress hs (take 128 bs)) (drop 128 bs) else (hs, bs))"
  by pat_completeness auto
termination
  by (relation "measure (\<lambda>(hs, bs). length bs)") auto

declare absorb.simps [simp del]

definition be_bytes :: "nat \<Rightarrow> nat \<Rightarrow> byte list" where
  "be_bytes n v = map (\<lambda>i. word_of_nat (v div 256 ^ i)) (rev [0..<n])"

definition padding :: "nat \<Rightarrow> byte list" where
  "padding len = 0x80 # replicate ((239 - len mod 128) mod 128) 0 @ be_bytes 16 (8 * len)"

record hasher =
  hstate :: "w64 list"
  pending :: "byte list"
  fed :: nat

definition sha512_new :: hasher where
  "sha512_new = \<lparr>hstate = IV, pending = [], fed = 0\<rparr>"

definition sha512_update :: "hasher \<Rightarrow> byte list \<Rightarrow> hasher" where
  "sha512_update s data =
     (case absorb (hstate s) (pending s @ data) of
        (hs, rest) \<Rightarrow> \<lparr>hstate = hs, pending = rest, fed = fed s + length data\<rparr>)"

definition word_bytes :: "w64 \<Rightarrow> byte list" where
  "word_bytes w = map (\<lambda>i. ucast (drop_bit (8 * i) w)) (rev [0..<8])"

definition sha512_digest :: "hasher \<Rightarrow> byte list" where
  "sha512_digest s = concat (map word_bytes (fst (absorb (hstate s) (pending s @ padding (fed s)))))"

definition sha512 :: "byte list \<Rightarrow> byte list" where
  "sha512 msg = concat (map word_bytes (fst (absorb IV (msg @ padding (length msg)))))"

definition hexdigit :: "nat \<Rightarrow> char" where
  "hexdigit n = ''0123456789abcdef'' ! n"

definition hex :: "byte list \<Rightarrow> string" where
  "hex bs = concat (map (\<lambda>b. [hexdigit (unat b div 16), hexdigit (unat b mod 16)]) bs)"

section \<open>Exceptions, files and the directory tree\<close>

text \<open>
  The exceptions that can leave the functions of \<^verbatim>\<open>Hacks/__main__.py\<close>. In Python 3
  \<^verbatim>\<open>IOError\<close> is \<^verbatim>\<open>OSError\<close>: every failure of \<^verbatim>\<open>open\<close> and \<^verbatim>\<open>read\<close> that
  comes from the operating system. \<^verbatim>\<open>RemoteError\<close> is what the manager raises when the
  constructor of \<^verbatim>\<open>notify\<close> fails in its process.
\<close>

datatype exn = IOError | TypeError | ValueError | RemoteError

text \<open>
  An opened binary file: its bytes, and optionally the offset of a byte that cannot be
  read (a read that covers it raises \<^verbatim>\<open>IOError\<close>).
\<close>

record pyfile =
  contents :: "byte list"
  bad :: "nat option"

text \<open>
  \<^verbatim>\<open>f.read(n)\<close> on a buffered binary file at position \<open>pos\<close>: the next \<open>n\<close> bytes,
  fewer only at the end of the file, \<^verbatim>\<open>b''\<close> at the end.
\<close>

definition fread :: "pyfile \<Rightarrow> nat \<Rightarrow> nat \<Rightarrow> exn + byte list" where
  "fread f pos n =
     (let chunk = take n (drop pos (contents f))
      in case bad f of
           None \<Rightarrow> Inr chunk
         | Some b \<Rightarrow> if pos \<le> b \<and> b < pos + length chunk then Inl IOError else Inr chunk)"

text \<open>
  The directory tree as directory listings show it: a regular file, a directory with its
  entries, or a directory whose listing fails.
\<close>

datatype fsnode = RegFile | Dir "(string \<times> fsnode) list" | DirNoList

text \<open>
  What the process sees of the outside: what a top directory path resolves to (\<open>None\<close>:
  it does not exist), what \<^verbatim>\<open>open(filename, "rb")\<close> gives at processing time, and
  whether \<^verbatim>\<open>open(fname, 'w')\<close> succeeds.
\<close>

record world =
  resolve :: "string \<Rightarrow> fsnode option"
  fopen :: "string \<Rightarrow> exn + pyfile"
  wopen :: "string \<Rightarrow> bool"

section \<open>The progress sink: class notify\<close>

text \<open>
  The fields of \<^verbatim>\<open>notify\<close>: the counter \<^verbatim>\<open>self.x\<close> (field \<open>xcount\<close>), the text
  written to \<^verbatim>\<open>self.file\<close> (field \<open>logfile\<close>), whether that file is closed, and the text
  printed to the console. \<open>msPrint\<close> is a whole call, with no statement of another call
  between its own; the calls that overlap are in the section on the pool.
\<close>

record notify =
  xcount :: nat
  console :: string
  logfile :: string
  closed :: bool

definition TAB :: char where "TAB = CHR 0x09"
definition LF :: char where "LF = CHR 0x0A"
definition CR :: char where "CR = CHR 0x0D"

function dec :: "nat \<Rightarrow> string" where
  "dec n = (if n < 10 then [char_of (48 + n)] else dec (n div 10) @ [char_of (48 + n mod 10)])"
  by pat_completeness auto
termination
  by (relation "measure id") auto

declare dec.simps [simp del]

text \<open>\<^verbatim>\<open>'%06d' % n\<close> for \<open>n \<ge> 0\<close>, and \<^verbatim>\<open>'%-ws' % s\<close>.\<close>

definition fmt06d :: "nat \<Rightarrow> string" where
  "fmt06d n = replicate (6 - length (dec n)) (CHR ''0'') @ dec n"

definition ljust :: "nat \<Rightarrow> string \<Rightarrow> string" where
  "ljust w s = s @ replicate (w - length s) (CHR '' '')"

definition notify_init :: notify where
  "notify_init = \<lparr>xcount = 0, console = [], logfile = [], closed = False\<rparr>"

definition progress_line :: "nat \<Rightarrow> string \<Rightarrow> string \<Rightarrow> string" where
  "progress_line n filename digest =
     fmt06d n @ '' > '' @ ljust 125 (take 125 filename) @ '' : '' @ ljust 20 (take 20 digest) @ [CR]"

definition log_line :: "string \<Rightarrow> string \<Rightarrow> string" where
  "log_line filename digest = ljust 175 filename @ [TAB] @ digest @ [LF]"

definition msPrint :: "notify \<Rightarrow> string \<Rightarrow> string \<Rightarrow> notify" where
  "msPrint self filename digest =
     (let self1 = self\<lparr>xcount := xcount self + 1\<rparr>;
          self2 = self1\<lparr>console := console self1 @ progress_line (xcount self1) filename digest\<rparr>
      in self2\<lparr>logfile := logfile self2 @ log_line filename digest\<rparr>)"

definition final :: "notify \<Rightarrow> notify" where
  "final self =
     self\<lparr>console := console self @ [LF] @ ''Files Processed:'' @ [TAB] @ fmt06d (xcount self) @ [LF],
          closed := True\<rparr>"

section \<open>The digest worker: compute_digest\<close>

text \<open>
  The \<^verbatim>\<open>while True\<close> loop of \<^verbatim>\<open>compute_digest\<close>, with the read position of the file
  object and the hash object passed along. \<open>bufsize\<close> is the module constant
  \<^verbatim>\<open>BUFSIZE\<close>. The calls of the loggers and \<^verbatim>\<open>f.close()\<close> change nothing that the
  function returns or reports, and are left out.
\<close>

function read_loop :: "nat \<Rightarrow> pyfile \<Rightarrow> nat \<Rightarrow> hasher \<Rightarrow> exn + hasher" where
  "read_loop bufsize f pos digest =
     (case fread f pos bufsize of
        Inl e \<Rightarrow> Inl e
      | Inr chunk \<Rightarrow>
          if chunk = [] then Inr digest
          else read_loop bufsize f (pos + length chunk) (sha512_update digest chunk))"
  by pat_completeness auto
termination
proof (relation "measure (\<lambda>(bufsize, f, pos, digest). length (contents f) - pos)")
  show "wf (measure (\<lambda>(bufsize, f, pos, digest). length (contents f) - pos))"
    by simp
next
  fix bufsize :: nat and f :: pyfile and pos :: nat and digest :: hasher and chunk :: "byte list"
  assume r: "fread f pos bufsize = Inr chunk" and ne: "chunk \<noteq> []"
  from r have "chunk = take bufsize (drop pos (contents f))"
    by (auto simp: fread_def Let_def split: option.splits if_splits)
  with ne have "pos < length (contents f)"
    by auto
  with ne show "((bufsize, f, pos + length chunk, sha512_update digest chunk), (bufsize, f, pos, digest))
      \<in> measure (\<lambda>(bufsize, f, pos, digest). length (contents f) - pos)"
    by (cases chunk) auto
qed

declare read_loop.simps [simp del]

definition BUFSIZE :: nat where
  "BUFSIZE = 2 ^ 25"

text \<open>
  The value is \<open>None\<close> for Python's \<^verbatim>\<open>None\<close> and \<open>Some (filename, dValue)\<close> for the
  pair; \<open>Inl\<close> is an exception that leaves the function. The sink is returned as the
  call leaves it.
\<close>

type_synonym outcome = "(string \<times> string) option"

definition compute_digest :: "nat \<Rightarrow> world \<Rightarrow> string \<Rightarrow> notify \<Rightarrow> exn + (outcome \<times> notify)" where
  "compute_digest bufsize w filename printer =
     (case fopen w filename of
        Inl IOError \<Rightarrow> Inr (None, printer)
      | Inl e \<Rightarrow> Inl e
      | Inr f \<Rightarrow>
          (case read_loop bufsize f 0 sha512_new of
             Inl e \<Rightarrow> Inl e
           | Inr digest \<Rightarrow>
               (let dValue = hex (sha512_digest digest)
                in Inr (Some (filename, dValue), msPrint printer filename dValue))))"

text \<open>
  The hash object after the bytes \<open>msg\<close> have been fed to a fresh one, in any number of
  \<^verbatim>\<open>update\<close> calls (lemma \<open>sha512_update_fed\<close>); used to state the loop invariant.
\<close>

definition fed_state :: "byte list \<Rightarrow> hasher" where
  "fed_state msg =
     \<lparr>hstate = fst (absorb IV msg), pending = snd (absorb IV msg), fed = length msg\<rparr>"

section \<open>The tree walker: os.walk and the generator allfiles\<close>

text \<open>\<^verbatim>\<open>os.path.join(a, b)\<close> of \<^verbatim>\<open>posixpath\<close>, for two components.\<close>

definition join :: "string \<Rightarrow> string \<Rightarrow> string" where
  "join a b =
     (if take 1 b = ''/'' then b
      else if a = [] \<or> last a = CHR ''/'' then a @ b
      else a @ ''/'' @ b)"

fun is_dir :: "fsnode \<Rightarrow> bool" where
  "is_dir RegFile = False"
| "is_dir (Dir entries) = True"
| "is_dir DirNoList = True"

text \<open>
  \<^verbatim>\<open>os.walk(dirpath)\<close>, top-down, with its default \<^verbatim>\<open>onerror=None\<close>: a directory that
  cannot be listed (also a top that is no directory) yields nothing and raises nothing.
\<close>

fun walk :: "string \<Rightarrow> fsnode \<Rightarrow> (string \<times> string list \<times> string list) list" where
  "walk dirpath (Dir entries) =
     (dirpath, map fst (filter (\<lambda>e. is_dir (snd e)) entries),
           map fst (filter (\<lambda>e. \<not> is_dir (snd e)) entries))
     # concat (map (\<lambda>e. walk (join dirpath (fst e)) (snd e)) (filter (\<lambda>e. is_dir (snd e)) entries))"
| "walk dirpath RegFile = []"
| "walk dirpath DirNoList = []"

definition os_walk :: "world \<Rightarrow> string \<Rightarrow> (string \<times> string list \<times> string list) list" where
  "os_walk w topdir = (case resolve w topdir of None \<Rightarrow> [] | Some node \<Rightarrow> walk topdir node)"

definition allfiles :: "world \<Rightarrow> string \<Rightarrow> string list" where
  "allfiles w topdir =
     concat (map (\<lambda>(path, dirs, files). map (join path) files) (os_walk w topdir))"

section \<open>The pool: starmap\<close>

text \<open>
  The calls of \<open>compute_digest\<close> one after the other, as one worker makes them; each
  result is stored at the index of its task (the list of results starts as
  \<^verbatim>\<open>[None] * length\<close>), and an exception of a call is the exception of \<^verbatim>\<open>starmap\<close>.
\<close>

fun run_tasks :: "nat \<Rightarrow> world \<Rightarrow> (nat \<times> string) list \<Rightarrow> notify \<Rightarrow> outcome list
    \<Rightarrow> exn + (outcome list \<times> notify)" where
  "run_tasks bufsize w [] printer results = Inr (results, printer)"
| "run_tasks bufsize w ((i, filename) # tasks) printer results =
     (case compute_digest bufsize w filename printer of
        Inl e \<Rightarrow> Inl e
      | Inr (r, printer') \<Rightarrow> run_tasks bufsize w tasks printer' (results[i := r]))"

text \<open>
  What one call of \<open>compute_digest\<close> returns or raises: lines 36 to 55 and the
  \<^verbatim>\<open>return\<close>. It does not depend on the sink (lemma \<open>compute_digest_task_result\<close>).
\<close>

definition task_result :: "nat \<Rightarrow> world \<Rightarrow> string \<Rightarrow> exn + outcome" where
  "task_result bufsize w filename = map_sum id fst (compute_digest bufsize w filename notify_init)"

definition task_outcome :: "nat \<Rightarrow> world \<Rightarrow> string \<Rightarrow> outcome" where
  "task_outcome bufsize w filename =
     (case task_result bufsize w filename of Inl e \<Rightarrow> None | Inr r \<Rightarrow> r)"

text \<open>
  The three statements of \<^verbatim>\<open>msPrint\<close>, lines 23, 24 and 25. \<^verbatim>\<open>notify\<close> holds no lock,
  and the manager that owns the object serves each worker in a thread of its own, so that a
  statement of one call can run between two statements of another. Each statement is one
  step on the sink; the \<^verbatim>\<open>print\<close> reads \<^verbatim>\<open>self.x\<close> as it is when the statement runs.
  (A finer division of the statements would allow more overlaps, not fewer.)
\<close>

datatype sink_op = Incr | Print string string | Write string string

fun sink_step :: "sink_op \<Rightarrow> notify \<Rightarrow> notify" where
  "sink_step Incr self = self\<lparr>xcount := xcount self + 1\<rparr>"
| "sink_step (Print filename digest) self =
     self\<lparr>console := console self @ progress_line (xcount self) filename digest\<rparr>"
| "sink_step (Write filename digest) self =
     self\<lparr>logfile := logfile self @ log_line filename digest\<rparr>"

definition run_ops :: "sink_op list \<Rightarrow> notify \<Rightarrow> notify" where
  "run_ops ops self = foldl (\<lambda>s op. sink_step op s) self ops"

text \<open>
  The sink statements of a call that returns \<open>r\<close>: none for \<^verbatim>\<open>None\<close>, those of
  \<^verbatim>\<open>printer.msPrint(filename, dValue)\<close> for the pair (lemma \<open>compute_digest_steps\<close>).
\<close>

fun sink_ops :: "outcome \<Rightarrow> sink_op list" where
  "sink_ops None = []"
| "sink_ops (Some (filename, dValue)) = [Incr, Print filename dValue, Write filename dValue]"

text \<open>
  What the pool sees of the call for task \<open>i\<close>, in order: the exception of its own part
  (open, read, hash), or else its sink statements, and then its result stored at index \<open>i\<close>
  of the list of results.
\<close>

datatype event = Raise exn | Sink sink_op | Store nat outcome

definition call_events :: "nat \<Rightarrow> world \<Rightarrow> nat \<times> string \<Rightarrow> event list" where
  "call_events bufsize w t =
     (case task_result bufsize w (snd t) of
        Inl e \<Rightarrow> [Raise e]
      | Inr r \<Rightarrow> map Sink (sink_ops r) @ [Store (fst t) r])"

text \<open>
  \<^verbatim>\<open>Pool.starmap\<close> calls the function once for each argument tuple and returns the results
  in the order of the arguments. With one worker the calls are made one after the other, in
  that order. With more workers \<open>sched\<close> chooses, at each step, which of the unfinished calls
  takes its next step, so that every order of the calls, and every way in which the
  statements of their \<^verbatim>\<open>msPrint\<close> overlap, is that of some \<open>sched\<close>.
\<close>

function interleave :: "int \<Rightarrow> nat list \<Rightarrow> 'a list list \<Rightarrow> 'a list" where
  "interleave POOLSIZE sched queues =
     (let live = filter (\<lambda>q. q \<noteq> []) queues
      in if live = [] then []
         else let k = (if POOLSIZE = 1 then 0
                       else case sched of [] \<Rightarrow> 0 | c # cs \<Rightarrow> c mod length live)
              in hd (live ! k) # interleave POOLSIZE (tl sched) (live[k := tl (live ! k)]))"
  by pat_completeness auto
termination
proof (relation "measure (\<lambda>(POOLSIZE, sched, queues). length (concat queues))")
  show "wf (measure (\<lambda>(POOLSIZE, sched, queues). length (concat queues)))"
    by simp
next
  fix POOLSIZE :: int and sched :: "nat list" and queues live :: "'a list list" and k :: nat
  assume live: "live = filter (\<lambda>q. q \<noteq> []) queues" and ne: "live \<noteq> []"
    and k: "k = (if POOLSIZE = 1 then 0 else case sched of [] \<Rightarrow> 0 | c # cs \<Rightarrow> c mod length live)"
  from ne have "0 < length live" by simp
  with k have kl: "k < length live"
    by (auto split: list.splits)
  then have "live ! k \<in> set live"
    by simp
  with live have nk: "live ! k \<noteq> []"
    by simp
  have "length (concat (filter (\<lambda>q. q \<noteq> []) qs)) = length (concat qs)" for qs :: "'a list list"
    by (induction qs) simp_all
  with live have same: "length (concat live) = length (concat queues)"
    by simp
  have "live = take k live @ live ! k # drop (Suc k) live"
    using kl by (rule id_take_nth_drop)
  then have "length (concat live)
      = length (concat (take k live)) + length (live ! k) + length (concat (drop (Suc k) live))"
    by (metis concat.simps(2) concat_append length_append add.assoc)
  moreover have "live[k := tl (live ! k)] = take k live @ tl (live ! k) # drop (Suc k) live"
    using kl by (rule upd_conv_take_nth_drop)
  then have "length (concat (live[k := tl (live ! k)]))
      = length (concat (take k live)) + length (tl (live ! k)) + length (concat (drop (Suc k) live))"
    by (metis concat.simps(2) concat_append length_append add.assoc)
  moreover from nk have "length (tl (live ! k)) < length (live ! k)"
    by simp
  ultimately have "length (concat (live[k := tl (live ! k)])) < length (concat queues)"
    using same by linarith
  then show "((POOLSIZE, tl sched, live[k := tl (live ! k)]), (POOLSIZE, sched, queues))
      \<in> measure (\<lambda>(POOLSIZE, sched, queues). length (concat queues))"
    by simp
qed

declare interleave.simps [simp del]

text \<open>
  The steps in the order they are taken. The first exception ends the run of the pool and
  is the exception of \<^verbatim>\<open>starmap\<close>.
\<close>

fun exec :: "event list \<Rightarrow> notify \<Rightarrow> outcome list \<Rightarrow> exn + (outcome list \<times> notify)" where
  "exec [] printer results = Inr (results, printer)"
| "exec (Raise e # es) printer results = Inl e"
| "exec (Sink op # es) printer results = exec es (sink_step op printer) results"
| "exec (Store i r # es) printer results = exec es printer (results[i := r])"

definition starmap :: "int \<Rightarrow> nat list \<Rightarrow> nat \<Rightarrow> world \<Rightarrow> string list \<Rightarrow> notify
    \<Rightarrow> exn + (outcome list \<times> notify)" where
  "starmap POOLSIZE sched bufsize w argsR printer =
     exec (interleave POOLSIZE sched (map (call_events bufsize w) (enumerate 0 argsR))) printer
       (replicate (length argsR) None)"

section \<open>The digest map builder: build_digest_map\<close>

text \<open>
  \<^verbatim>\<open>dict(results)\<close>: each element must be a pair; \<^verbatim>\<open>None\<close> is not, and raises
  \<^verbatim>\<open>TypeError\<close>. A later pair with the same key replaces the earlier one.
\<close>

fun dict :: "outcome list \<Rightarrow> (string \<rightharpoonup> string) \<Rightarrow> exn + (string \<rightharpoonup> string)" where
  "dict [] m = Inr m"
| "dict (None # rs) m = Inl TypeError"
| "dict (Some (k, v) # rs) m = dict rs (m(k \<mapsto> v))"

text \<open>
  \<open>POOLSIZE\<close> is the module variable of that name (\<^verbatim>\<open>Pool\<close> raises \<^verbatim>\<open>ValueError\<close> below
  one worker). The sink is created before the tree is walked (the generator is consumed
  by the \<^verbatim>\<open>for\<close> loop), and finalised only after \<^verbatim>\<open>dict\<close> has built the map. The result
  is the map together with the sink as \<^verbatim>\<open>final\<close> leaves it.
\<close>

definition build_digest_map :: "int \<Rightarrow> nat list \<Rightarrow> nat \<Rightarrow> world \<Rightarrow> string \<Rightarrow> string
    \<Rightarrow> exn + ((string \<rightharpoonup> string) \<times> notify)" where
  "build_digest_map POOLSIZE sched bufsize w topdir fname =
     (if POOLSIZE < 1 then Inl ValueError
      else if \<not> wopen w fname then Inl RemoteError
      else let temp = notify_init;
               argsR = allfiles w topdir
           in case starmap POOLSIZE sched bufsize w argsR temp of
                Inl e \<Rightarrow> Inl e
              | Inr (results, temp') \<Rightarrow>
                  (case dict results Map.empty of
                     Inl e \<Rightarrow> Inl e
                   | Inr digest_map \<Rightarrow> Inr (digest_map, final temp')))"


section \<open>Auxiliary notions for the statements\<close>

text \<open>The sink after the whole calls of \<open>msPrint\<close> for the given pairs, in their order.\<close>

fun report_all :: "(string \<times> string) list \<Rightarrow> notify \<Rightarrow> notify" where
  "report_all [] printer = printer"
| "report_all ((p, d) # recs) printer = report_all recs (msPrint printer p d)"

text \<open>The pairs among a list of outcomes.\<close>

definition pairs_of :: "outcome list \<Rightarrow> (string \<times> string) list" where
  "pairs_of rs = List.map_filter id rs"

text \<open>The console text of the progress lines numbered from \<open>n\<close> on, one for each pair.\<close>

fun progress_lines :: "nat \<Rightarrow> (string \<times> string) list \<Rightarrow> string" where
  "progress_lines n [] = []"
| "progress_lines n ((p, d) # recs) = progress_line n p d @ progress_lines (Suc n) recs"

text \<open>The results stored and the sink statements among a list of steps, in their order.\<close>

definition stores_of :: "event list \<Rightarrow> (nat \<times> outcome) list" where
  "stores_of es = List.map_filter (\<lambda>e. case e of Store i r \<Rightarrow> Some (i, r) | _ \<Rightarrow> None) es"

definition ops_of :: "event list \<Rightarrow> sink_op list" where
  "ops_of es = List.map_filter (\<lambda>e. case e of Sink op \<Rightarrow> Some op | _ \<Rightarrow> None) es"

text \<open>The number that a string of decimal digits writes.\<close>

definition decimal_value :: "string \<Rightarrow> nat" where
  "decimal_value s = foldl (\<lambda>a c. 10 * a + (of_char c - 48)) 0 s"

section \<open>Example trees\<close>

text \<open>
  The tree of the scenario: \<^verbatim>\<open>a.txt\<close> (\<^verbatim>\<open>hello\<close>), \<^verbatim>\<open>b.txt\<close> (empty) and
  \<^verbatim>\<open>sub/c.txt\<close> (\<^verbatim>\<open>world\<close>) under the root \<^verbatim>\<open>r\<close>. The paths in \<open>locked\<close> cannot be
  opened; the paths in \<open>broken\<close> open, and their first byte cannot be read.
\<close>

definition scenario_tree :: fsnode where
  "scenario_tree =
     Dir [(''a.txt'', RegFile), (''b.txt'', RegFile), (''sub'', Dir [(''c.txt'', RegFile)])]"

definition scenario_bytes :: "string \<Rightarrow> byte list" where
  "scenario_bytes p =
     (if p = ''r/a.txt'' then [0x68, 0x65, 0x6C, 0x6C, 0x6F]
      else if p = ''r/sub/c.txt'' then [0x77, 0x6F, 0x72, 0x6C, 0x64]
      else [])"

definition scenario :: "string list \<Rightarrow> string list \<Rightarrow> world" where
  "scenario locked broken =
     \<lparr>resolve = (\<lambda>p. if p = ''r'' then Some scenario_tree else None),
      fopen = (\<lambda>p. if p \<in> set locked \<or> p \<notin> {''r/a.txt'', ''r/b.txt'', ''r/sub/c.txt''}
                    then Inl IOError
                    else Inr \<lparr>contents = scenario_bytes p,
                              bad = (if p \<in> set broken then Some 0 else None)\<rparr>),
      wopen = (\<lambda>p. True)\<rparr>"

definition scenario_digest :: "string \<Rightarrow> string" where
  "scenario_digest p = hex (sha512 (scenario_bytes p))"

section \<open>Properties\<close>

subsection \<open>Streaming and one-shot hashing agree\<close>

lemma absorb_short: "length bs < 128 \<Longrightarrow> absorb hs bs = (hs, bs)"
  by (subst absorb.simps) simp

lemma absorb_append:
  "absorb hs (xs @ ys) = (case absorb hs xs of (hs', r) \<Rightarrow> absorb hs' (r @ ys))"
proof (induction hs xs rule: absorb.induct)
  case (1 hs bs)
  show ?case
  proof (cases "128 \<le> length bs")
    case True
    then have "absorb hs (bs @ ys) = absorb (compress hs (take 128 bs)) (drop 128 bs @ ys)"
      by (subst absorb.simps) simp
    also have "\<dots> = (case absorb (compress hs (take 128 bs)) (drop 128 bs) of (hs', r) \<Rightarrow> absorb hs' (r @ ys))"
      using "1" True by simp
    also have "absorb (compress hs (take 128 bs)) (drop 128 bs) = absorb hs bs"
      using True by (subst (2) absorb.simps) simp
    finally show ?thesis .
  next
    case False
    then show ?thesis by (subst (2) absorb.simps) simp
  qed
qed

lemma absorb_rest_short: "length (snd (absorb hs bs)) < 128"
  by (induction hs bs rule: absorb.induct) (subst absorb.simps, simp)

lemma fed_state_Nil: "fed_state [] = sha512_new"
  by (simp add: fed_state_def sha512_new_def absorb_short)

lemma sha512_update_fed: "sha512_update (fed_state msg) data = fed_state (msg @ data)"
  by (simp add: sha512_update_def fed_state_def absorb_append [of IV msg data] split: prod.splits)

lemma sha512_digest_fed: "sha512_digest (fed_state msg) = sha512 msg"
  by (simp add: sha512_digest_def sha512_def fed_state_def absorb_append [of IV msg] split: prod.splits)

lemma read_loop_fed:
  "bad f = None \<Longrightarrow> 0 < bufsize \<Longrightarrow> pos \<le> length (contents f) \<Longrightarrow>
   read_loop bufsize f pos (fed_state (take pos (contents f))) = Inr (fed_state (contents f))"
proof (induction bufsize f pos "fed_state (take pos (contents f))" rule: read_loop.induct)
  case (1 bufsize f pos)
  let ?chunk = "take bufsize (drop pos (contents f))"
  have r: "fread f pos bufsize = Inr ?chunk"
    using "1.prems" by (simp add: fread_def)
  show ?case
  proof (cases "?chunk = []")
    case True
    with "1.prems" have "pos = length (contents f)" by auto
    with r True show ?thesis by (subst read_loop.simps) simp
  next
    case False
    have t: "take pos (contents f) @ ?chunk = take (pos + length ?chunk) (contents f)"
      by (simp add: take_add min_def)
    have "read_loop bufsize f (pos + length ?chunk) (fed_state (take (pos + length ?chunk) (contents f)))
        = Inr (fed_state (contents f))"
      using "1.prems" False
      by (intro "1.hyps" [OF r False]) (auto simp: sha512_update_fed t)
    with r False show ?thesis
      by (subst read_loop.simps) (simp add: sha512_update_fed t del: take_all_iff)
  qed
qed


subsection \<open>The worker on a readable file\<close>

lemma read_loop_whole:
  "bad f = None \<Longrightarrow> 0 < bufsize \<Longrightarrow> read_loop bufsize f 0 sha512_new = Inr (fed_state (contents f))"
  using read_loop_fed [of f bufsize 0] by (simp add: fed_state_Nil)

lemma compute_digest_readable:
  assumes "fopen w filename = Inr f" and "bad f = None" and "0 < bufsize"
  shows "compute_digest bufsize w filename printer =
     Inr (Some (filename, hex (sha512 (contents f))),
          msPrint printer filename (hex (sha512 (contents f))))"
  using assms by (simp add: compute_digest_def read_loop_whole sha512_digest_fed Let_def)

lemma compute_digest_locked:
  "fopen w filename = Inl IOError \<Longrightarrow> compute_digest bufsize w filename printer = Inr (None, printer)"
  by (simp add: compute_digest_def)

lemma scenario_fopen_ok:
  "p \<in> {''r/a.txt'', ''r/b.txt'', ''r/sub/c.txt''} \<Longrightarrow> p \<notin> set locked \<Longrightarrow>
   fopen (scenario locked broken) p
     = Inr \<lparr>contents = scenario_bytes p, bad = (if p \<in> set broken then Some 0 else None)\<rparr>"
  by (simp add: scenario_def)

lemma scenario_fopen_locked:
  "p \<in> set locked \<Longrightarrow> fopen (scenario locked broken) p = Inl IOError"
  by (simp add: scenario_def)

text \<open>
  C2: for a file that opens and reads without error, and every positive chunk size, the
  digest that \<open>compute_digest\<close> returns is the hexadecimal form of the one-shot SHA-512 of
  the whole contents; the chunk size does not occur in it.
\<close>

theorem compute_digest_chunk_size_irrelevant:
  assumes "fopen w filename = Inr f" and "bad f = None" and "0 < bufsize"
  shows "map_sum id fst (compute_digest bufsize w filename printer)
     = Inr (Some (filename, hex (sha512 (contents f))))"
  using assms by (simp add: compute_digest_readable)

theorem compute_digest_chunk_size_irrelevant_witness:
  "fopen (scenario [] []) ''r/a.txt'' = Inr \<lparr>contents = [0x68, 0x65, 0x6C, 0x6C, 0x6F], bad = None\<rparr>
   \<and> bad \<lparr>contents = [0x68, 0x65, 0x6C, 0x6C, 0x6F], bad = None\<rparr> = None
   \<and> (0::nat) < 2
   \<and> map_sum id fst (compute_digest 2 (scenario [] []) ''r/a.txt'' notify_init)
     = Inr (Some (''r/a.txt'', hex (sha512 [0x68, 0x65, 0x6C, 0x6C, 0x6F])))"
proof -
  have o: "fopen (scenario [] []) ''r/a.txt'' = Inr \<lparr>contents = [0x68, 0x65, 0x6C, 0x6C, 0x6F], bad = None\<rparr>"
    by (simp add: scenario_def scenario_bytes_def)
  have b: "bad \<lparr>contents = [0x68, 0x65, 0x6C, 0x6C, 0x6F], bad = None\<rparr> = None"
    by simp
  have n: "(0::nat) < 2"
    by simp
  from compute_digest_chunk_size_irrelevant [OF o b n, of notify_init] o b n
  show ?thesis by simp
qed

text \<open>
  C8: whenever \<open>compute_digest\<close> returns the pair \<open>(filename, dValue)\<close>, the sink it
  leaves behind is the sink it was given after \<open>msPrint filename dValue\<close>: the report for
  exactly that pair has been made, once, before the pair is returned.
\<close>

theorem compute_digest_reports_before_return:
  "compute_digest bufsize w filename printer = Inr (Some (p, d), printer') \<Longrightarrow>
     p = filename \<and> printer' = msPrint printer filename d \<and> xcount printer' = xcount printer + 1"
  by (auto simp: compute_digest_def msPrint_def Let_def split: sum.splits exn.splits)

theorem compute_digest_reports_before_return_witness:
  "compute_digest 2 (scenario [] []) ''r/b.txt'' notify_init
     = Inr (Some (''r/b.txt'', hex (sha512 [])), msPrint notify_init ''r/b.txt'' (hex (sha512 [])))
   \<and> ''r/b.txt'' = ''r/b.txt''
   \<and> msPrint notify_init ''r/b.txt'' (hex (sha512 [])) = msPrint notify_init ''r/b.txt'' (hex (sha512 []))
   \<and> xcount (msPrint notify_init ''r/b.txt'' (hex (sha512 []))) = xcount notify_init + 1"
proof -
  have o: "fopen (scenario [] []) ''r/b.txt'' = Inr \<lparr>contents = [], bad = None\<rparr>"
    by (simp add: scenario_def scenario_bytes_def)
  have h: "compute_digest 2 (scenario [] []) ''r/b.txt'' notify_init
     = Inr (Some (''r/b.txt'', hex (sha512 [])), msPrint notify_init ''r/b.txt'' (hex (sha512 [])))"
    using compute_digest_readable [OF o, of 2 notify_init] by simp
  from compute_digest_reports_before_return [OF h] h show ?thesis by simp
qed

subsection \<open>Shape of the digest\<close>














lemma read_loop_no_error: "bad f = None \<Longrightarrow> \<exists>d. read_loop bufsize f pos h = Inr d"
proof (induction bufsize f pos h rule: read_loop.induct)
  case (1 bufsize f pos digest)
  then show ?case
    by (subst read_loop.simps) (auto simp: fread_def)
qed

lemma read_loop_empty: "contents f = [] \<Longrightarrow> read_loop bufsize f 0 h = Inr h"
  by (subst read_loop.simps) (simp add: fread_def split: option.splits)

lemma sha512_digest_new: "sha512_digest sha512_new = sha512 []"
  using sha512_digest_fed [of "[]"] by (simp add: fed_state_Nil)

text \<open>
  C10: on a file that reads without error the loop returns a hash object, whatever the
  chunk size, the position and the hash object it starts from (the loop is a total function:
  the remaining length decreases at every non-empty chunk). On an empty file the first read
  is empty, the loop returns the hash object it was given, unchanged, and the worker returns
  the pair whose digest is the SHA-512 of the empty byte string.
\<close>

theorem read_loop_terminates_empty_file_digest:
  "(bad f = None \<longrightarrow> (\<exists>d. read_loop bufsize f pos h = Inr d))
   \<and> (contents f = [] \<longrightarrow> read_loop bufsize f 0 h = Inr h)
   \<and> (fopen w filename = Inr f \<longrightarrow> contents f = [] \<longrightarrow>
        compute_digest bufsize w filename printer
          = Inr (Some (filename, hex (sha512 [])), msPrint printer filename (hex (sha512 []))))"
  by (simp add: read_loop_no_error read_loop_empty compute_digest_def sha512_digest_new Let_def)

theorem read_loop_terminates_empty_file_digest_witness:
  "bad \<lparr>contents = [], bad = None\<rparr> = None
   \<and> contents \<lparr>contents = [], bad = None\<rparr> = []
   \<and> fopen (scenario [] []) ''r/b.txt'' = Inr \<lparr>contents = [], bad = None\<rparr>
   \<and> (\<exists>d. read_loop BUFSIZE \<lparr>contents = [], bad = None\<rparr> 0 sha512_new = Inr d)
   \<and> read_loop BUFSIZE \<lparr>contents = [], bad = None\<rparr> 0 sha512_new = Inr sha512_new
   \<and> compute_digest BUFSIZE (scenario [] []) ''r/b.txt'' notify_init
        = Inr (Some (''r/b.txt'', hex (sha512 [])), msPrint notify_init ''r/b.txt'' (hex (sha512 [])))"
proof -
  have o: "fopen (scenario [] []) ''r/b.txt'' = Inr \<lparr>contents = [], bad = None\<rparr>"
    by (simp add: scenario_def scenario_bytes_def)
  from read_loop_terminates_empty_file_digest
    [of "\<lparr>contents = [], bad = None\<rparr>" BUFSIZE 0 sha512_new "scenario [] []" "''r/b.txt''" notify_init] o
  show ?thesis by simp
qed

text \<open>
  C6, counterexample: a file that opens and whose first read fails. \<open>compute_digest\<close>
  does not return \<open>None\<close> for it: the \<^verbatim>\<open>IOError\<close> of the read leaves the function.
\<close>

theorem compute_digest_read_failure_raises:
  "fopen (scenario [] [''r/a.txt'']) ''r/a.txt''
     = Inr \<lparr>contents = [0x68, 0x65, 0x6C, 0x6C, 0x6F], bad = Some 0\<rparr>
   \<and> fread \<lparr>contents = [0x68, 0x65, 0x6C, 0x6C, 0x6F], bad = Some 0\<rparr> 0 2 = Inl IOError
   \<and> compute_digest 2 (scenario [] [''r/a.txt'']) ''r/a.txt'' notify_init = Inl IOError"
  by (simp add: scenario_def scenario_bytes_def compute_digest_def fread_def read_loop.simps [of 2 _ 0])

text \<open>
  C6, as amended: if opening the file fails with \<^verbatim>\<open>IOError\<close>, \<open>compute_digest\<close> returns
  \<open>None\<close>, raises nothing and leaves the sink as it was.
\<close>

theorem compute_digest_open_failure_absorbed:
  "fopen w filename = Inl IOError \<Longrightarrow> compute_digest bufsize w filename printer = Inr (None, printer)"
  by (simp add: compute_digest_def)

theorem compute_digest_open_failure_absorbed_witness:
  "fopen (scenario [''r/b.txt''] []) ''r/b.txt'' = Inl IOError
   \<and> compute_digest BUFSIZE (scenario [''r/b.txt''] []) ''r/b.txt'' notify_init = Inr (None, notify_init)"
proof -
  have o: "fopen (scenario [''r/b.txt''] []) ''r/b.txt'' = Inl IOError"
    by (simp add: scenario_def)
  from compute_digest_open_failure_absorbed [OF o] o show ?thesis by simp
qed



subsection \<open>The pool\<close>

lemma compute_digest_task_result:
  "compute_digest bufsize w filename printer =
     (case task_result bufsize w filename of
        Inl e \<Rightarrow> Inl e
      | Inr None \<Rightarrow> Inr (None, printer)
      | Inr (Some (p, d)) \<Rightarrow> Inr (Some (p, d), msPrint printer p d))"
  by (simp add: task_result_def compute_digest_def Let_def split: sum.splits exn.splits)

lemma run_ops_msPrint: "run_ops (sink_ops (Some (p, d))) printer = msPrint printer p d"
  by (simp add: run_ops_def msPrint_def Let_def)

lemma run_ops_Nil: "run_ops [] printer = printer"
  by (simp add: run_ops_def)

lemma run_ops_append: "run_ops (xs @ ys) printer = run_ops ys (run_ops xs printer)"
  by (simp add: run_ops_def)

lemma compute_digest_steps:
  "compute_digest bufsize w filename printer =
     (case task_result bufsize w filename of
        Inl e \<Rightarrow> Inl e
      | Inr r \<Rightarrow> Inr (r, run_ops (sink_ops r) printer))"
  by (simp add: compute_digest_task_result run_ops_def msPrint_def Let_def
      split: sum.splits option.splits)

lemma concat_filter_nonempty: "concat (filter (\<lambda>q. q \<noteq> []) qs) = concat qs"
  by (induction qs) simp_all

lemma interleave_step:
  assumes "live = filter (\<lambda>q. q \<noteq> []) queues" and "live \<noteq> []"
    and "k = (if POOLSIZE = 1 then 0 else case sched of [] \<Rightarrow> 0 | c # cs \<Rightarrow> c mod length live)"
  shows "interleave POOLSIZE sched queues
       = hd (live ! k) # interleave POOLSIZE (tl sched) (live[k := tl (live ! k)])"
    and "k < length live" and "live ! k \<noteq> []"
proof -
  show "interleave POOLSIZE sched queues
       = hd (live ! k) # interleave POOLSIZE (tl sched) (live[k := tl (live ! k)])"
    using assms(2) unfolding assms(3) assms(1)
    by (subst interleave.simps) (simp add: Let_def)
  from assms(2) have "0 < length live" by simp
  with assms(3) show kl: "k < length live"
    by (auto split: list.splits)
  then have "live ! k \<in> set live"
    by simp
  with assms(1) show "live ! k \<noteq> []"
    by simp
qed

lemma interleave_done:
  "filter (\<lambda>q. q \<noteq> []) queues = [] \<Longrightarrow> interleave POOLSIZE sched queues = []"
  by (subst interleave.simps) simp

lemma mset_concat_update_tl:
  assumes "k < length live" and "live ! k \<noteq> []"
  shows "add_mset (hd (live ! k)) (mset (concat (live[k := tl (live ! k)]))) = mset (concat live)"
proof -
  have l: "live = take k live @ live ! k # drop (Suc k) live"
    using assms(1) by (rule id_take_nth_drop)
  have u: "live[k := tl (live ! k)] = take k live @ tl (live ! k) # drop (Suc k) live"
    using assms(1) by (rule upd_conv_take_nth_drop)
  have "mset (concat live)
      = mset (concat (take k live)) + mset (live ! k) + mset (concat (drop (Suc k) live))"
    by (subst l) simp
  moreover have "mset (live ! k) = add_mset (hd (live ! k)) (mset (tl (live ! k)))"
    using assms(2) by (cases "live ! k") simp_all
  ultimately show ?thesis
    by (simp add: u)
qed

lemma mset_interleave: "mset (interleave POOLSIZE sched queues) = mset (concat queues)"
proof (induction POOLSIZE sched queues rule: interleave.induct)
  case (1 POOLSIZE sched queues)
  define live where "live = filter (\<lambda>q. q \<noteq> []) queues"
  show ?case
  proof (cases "live = []")
    case True
    then have "concat queues = []"
      using concat_filter_nonempty [of queues] by (simp add: live_def)
    with True show ?thesis
      by (simp add: interleave_done live_def)
  next
    case False
    define k where "k = (if POOLSIZE = 1 then 0
                       else case sched of [] \<Rightarrow> 0 | c # cs \<Rightarrow> c mod length live)"
    note st = interleave_step [OF live_def False k_def]
    have "mset (interleave POOLSIZE (tl sched) (live[k := tl (live ! k)]))
        = mset (concat (live[k := tl (live ! k)]))"
      using "1.IH" [OF live_def False k_def] .
    then have "mset (interleave POOLSIZE sched queues)
        = add_mset (hd (live ! k)) (mset (concat (live[k := tl (live ! k)])))"
      by (simp add: st(1))
    also have "\<dots> = mset (concat live)"
      using st(2,3) by (rule mset_concat_update_tl)
    also have "\<dots> = mset (concat queues)"
      by (simp add: live_def concat_filter_nonempty)
    finally show ?thesis .
  qed
qed

lemma interleave_one: "interleave 1 sched queues = concat queues"
proof (induction "1::int" sched queues rule: interleave.induct)
  case (1 sched queues)
  define live where "live = filter (\<lambda>q. q \<noteq> []) queues"
  show ?case
  proof (cases "live = []")
    case True
    then have "concat queues = []"
      using concat_filter_nonempty [of queues] by (simp add: live_def)
    with True show ?thesis
      by (simp add: interleave_done live_def)
  next
    case False
    have k: "(0::nat) = (if (1::int) = 1 then 0
                       else case sched of [] \<Rightarrow> 0 | c # cs \<Rightarrow> c mod length live)"
      by simp
    note st = interleave_step [OF live_def False k]
    have "interleave 1 (tl sched) (live[0 := tl (live ! 0)]) = concat (live[0 := tl (live ! 0)])"
      using "1.hyps" [OF live_def False k] .
    then have "interleave 1 sched queues = hd (live ! 0) # concat (live[0 := tl (live ! 0)])"
      by (simp add: st(1))
    also have "\<dots> = concat live"
    proof -
      from False obtain q qs where l: "live = q # qs"
        by (cases live) simp_all
      with st(3) have "q \<noteq> []"
        by simp
      with l show ?thesis
        by simp
    qed
    also have "\<dots> = concat queues"
      by (simp add: live_def concat_filter_nonempty)
    finally show ?thesis .
  qed
qed

lemma pairs_of_Cons:
  "pairs_of (r # rs) = (case r of None \<Rightarrow> pairs_of rs | Some pd \<Rightarrow> pd # pairs_of rs)"
  by (simp add: pairs_of_def List.map_filter_simps split: option.splits)

lemma pairs_of_Nil: "pairs_of [] = []"
  by (simp add: pairs_of_def List.map_filter_simps)

lemma stores_of_simps:
  "stores_of [] = []"
  "stores_of (Raise e # es) = stores_of es"
  "stores_of (Sink op # es) = stores_of es"
  "stores_of (Store i r # es) = (i, r) # stores_of es"
  by (simp_all add: stores_of_def List.map_filter_simps)

lemma ops_of_simps:
  "ops_of [] = []"
  "ops_of (Raise e # es) = ops_of es"
  "ops_of (Sink op # es) = op # ops_of es"
  "ops_of (Store i r # es) = ops_of es"
  by (simp_all add: ops_of_def List.map_filter_simps)

lemma stores_of_append: "stores_of (xs @ ys) = stores_of xs @ stores_of ys"
  by (simp add: stores_of_def List.map_filter_def)

lemma ops_of_append: "ops_of (xs @ ys) = ops_of xs @ ops_of ys"
  by (simp add: ops_of_def List.map_filter_def)

lemma stores_of_sinks: "stores_of (map Sink ops) = []"
  by (induction ops) (simp_all add: stores_of_simps)

lemma ops_of_sinks: "ops_of (map Sink ops) = ops"
  by (induction ops) (simp_all add: ops_of_simps)

lemma mset_stores_of: "mset xs = mset ys \<Longrightarrow> mset (stores_of xs) = mset (stores_of ys)"
  by (simp add: stores_of_def List.map_filter_def)

lemma exec_ok:
  "\<forall>e. Raise e \<notin> set es \<Longrightarrow>
   exec es printer rs =
     Inr (foldl (\<lambda>rs t. rs[fst t := snd t]) rs (stores_of es), run_ops (ops_of es) printer)"
proof (induction es arbitrary: printer rs)
  case Nil
  show ?case by (simp add: stores_of_simps ops_of_simps run_ops_def)
next
  case (Cons ev es)
  then have rest: "\<forall>e. Raise e \<notin> set es"
    by simp
  show ?case
  proof (cases ev)
    case (Raise e)
    with Cons.prems show ?thesis
      by auto
  next
    case (Sink op)
    then show ?thesis
      by (simp add: Cons.IH [OF rest] stores_of_simps ops_of_simps run_ops_def)
  next
    case (Store i r)
    then show ?thesis
      by (simp add: Cons.IH [OF rest] stores_of_simps ops_of_simps)
  qed
qed

lemma exec_raises: "Raise e \<in> set es \<Longrightarrow> \<exists>e'. exec es printer rs = Inl e'"
proof (induction es arbitrary: printer rs)
  case Nil
  then show ?case by simp
next
  case (Cons ev es)
  then show ?case
    by (cases ev) auto
qed

lemma exec_sinks: "exec (map Sink ops @ es) printer rs = exec es (run_ops ops printer) rs"
  by (induction ops arbitrary: printer) (simp_all add: run_ops_def)

lemma exec_concat_run_tasks:
  "exec (concat (map (call_events bufsize w) ts)) printer rs = run_tasks bufsize w ts printer rs"
proof (induction ts arbitrary: printer rs)
  case Nil
  show ?case by simp
next
  case (Cons t ts)
  obtain i filename where t: "t = (i, filename)" by (cases t)
  show ?case
  proof (cases "task_result bufsize w filename")
    case (Inl e)
    with t have "call_events bufsize w t = [Raise e]"
      by (simp add: call_events_def)
    with t Inl show ?thesis
      by (simp add: compute_digest_steps)
  next
    case (Inr r)
    with t have "call_events bufsize w t = map Sink (sink_ops r) @ [Store i r]"
      by (simp add: call_events_def)
    with t Inr show ?thesis
      by (simp add: compute_digest_steps exec_sinks Cons.IH)
  qed
qed

lemma length_foldl_store:
  "length (foldl (\<lambda>rs t. rs[fst t := g (snd t)]) rs ts) = length rs"
  by (induction ts arbitrary: rs) simp_all

lemma nth_foldl_store:
  "distinct (map fst ts) \<Longrightarrow> i < length rs \<Longrightarrow>
   foldl (\<lambda>rs t. rs[fst t := g (snd t)]) rs ts ! i
     = (case map_of ts i of None \<Rightarrow> rs ! i | Some f \<Rightarrow> g f)"
proof (induction ts arbitrary: rs)
  case Nil
  show ?case by simp
next
  case (Cons t ts)
  obtain j f where t: "t = (j, f)" by (cases t)
  from Cons.prems t have d: "distinct (map fst ts)" and nj: "j \<notin> fst ` set ts"
    by auto
  from nj have none: "map_of ts j = None"
    by (simp add: map_of_eq_None_iff)
  from Cons.prems(2) have l: "i < length (rs[j := g f])"
    by simp
  show ?case
    using Cons.IH [OF d l] t none Cons.prems(2)
    by (cases "i = j") (simp_all split: option.splits)
qed

lemma store_permutation:
  assumes "mset ts = mset (enumerate 0 xs)"
  shows "foldl (\<lambda>rs t. rs[fst t := g (snd t)]) (replicate (length xs) None) ts = map g xs"
proof (rule nth_equalityI)
  show "length (foldl (\<lambda>rs t. rs[fst t := g (snd t)]) (replicate (length xs) None) ts)
      = length (map g xs)"
    by (simp add: length_foldl_store)
next
  fix i
  assume "i < length (foldl (\<lambda>rs t. rs[fst t := g (snd t)]) (replicate (length xs) None) ts)"
  then have i: "i < length xs"
    by (simp add: length_foldl_store)
  have de: "distinct (map fst (enumerate 0 xs))"
    by simp
  from assms have "mset (map fst ts) = mset (map fst (enumerate 0 xs))"
    by (metis mset_map)
  with de have dt: "distinct (map fst ts)"
    by (metis mset_eq_imp_distinct_iff)
  from assms have "set ts = set (enumerate 0 xs)"
    by (rule mset_eq_setD)
  with dt de have "map_of ts = map_of (enumerate 0 xs)"
    by (simp add: map_of_inject_set)
  moreover have "map_of (enumerate 0 xs) i = Some (xs ! i)"
    using i map_of_zip_nth [of "[0..<length xs]" xs i] by (simp add: enumerate_eq_zip)
  ultimately show "foldl (\<lambda>rs t. rs[fst t := g (snd t)]) (replicate (length xs) None) ts ! i
      = map g xs ! i"
    using i dt by (simp add: nth_foldl_store)
qed

lemma snd_in_enumerate: "t \<in> set (enumerate 0 xs) \<Longrightarrow> snd t \<in> set xs"
proof -
  assume "t \<in> set (enumerate 0 xs)"
  then have "fst t < length xs" and "xs ! fst t = snd t"
    by (simp_all add: in_set_enumerate_eq)
  then show ?thesis
    by (metis nth_mem)
qed


lemma in_enumerate_snd: "f \<in> set xs \<Longrightarrow> \<exists>t \<in> set (enumerate 0 xs). snd t = f"
proof -
  assume "f \<in> set xs"
  then obtain i where "i < length xs" and "xs ! i = f"
    by (auto simp: in_set_conv_nth)
  then have "(i, f) \<in> set (enumerate 0 xs)"
    by (simp add: in_set_enumerate_eq)
  then show ?thesis
    by force
qed


lemma not_all_ok:
  "\<not> (\<forall>f \<in> set xs. \<exists>r. task_result bufsize w f = Inr r)
   \<Longrightarrow> \<exists>f \<in> set xs. \<exists>e. task_result bufsize w f = Inl e"
proof -
  assume "\<not> (\<forall>f \<in> set xs. \<exists>r. task_result bufsize w f = Inr r)"
  then obtain f where f: "f \<in> set xs" and "\<forall>r. task_result bufsize w f \<noteq> Inr r"
    by blast
  then have "\<exists>e. task_result bufsize w f = Inl e"
    by (cases "task_result bufsize w f") simp_all
  with f show ?thesis
    by blast
qed


lemma call_events_ok:
  "task_result bufsize w (snd t) = Inr r \<Longrightarrow>
   call_events bufsize w t = map Sink (sink_ops r) @ [Store (fst t) r]"
  by (simp add: call_events_def)

lemma events_no_raise:
  assumes "\<forall>t \<in> set ts. \<exists>r. task_result bufsize w (snd t) = Inr r"
  shows "\<forall>e. Raise e \<notin> set (concat (map (call_events bufsize w) ts))"
  using assms by (induction ts) (auto simp: call_events_ok)

lemma events_stores:
  assumes "\<forall>t \<in> set ts. \<exists>r. task_result bufsize w (snd t) = Inr r"
  shows "stores_of (concat (map (call_events bufsize w) ts))
       = map (\<lambda>t. (fst t, task_outcome bufsize w (snd t))) ts"
  using assms
  by (induction ts)
     (auto simp: call_events_ok stores_of_append stores_of_sinks stores_of_simps task_outcome_def)

lemma events_ops:
  assumes "\<forall>t \<in> set ts. \<exists>r. task_result bufsize w (snd t) = Inr r"
  shows "ops_of (concat (map (call_events bufsize w) ts))
       = concat (map (\<lambda>t. sink_ops (task_outcome bufsize w (snd t))) ts)"
  using assms
  by (induction ts)
     (auto simp: call_events_ok ops_of_append ops_of_sinks ops_of_simps task_outcome_def)

lemma events_raise:
  assumes "t \<in> set ts" and "task_result bufsize w (snd t) = Inl e"
  shows "Raise e \<in> set (concat (map (call_events bufsize w) ts))"
proof -
  from assms(2) have "Raise e \<in> set (call_events bufsize w t)"
    by (simp add: call_events_def)
  with assms(1) show ?thesis
    by auto
qed

lemma set_interleave: "set (interleave POOLSIZE sched queues) = set (concat queues)"
  using mset_interleave [of POOLSIZE sched queues] by (rule mset_eq_setD)

lemma enumerate_map_outcome:
  "map (\<lambda>t. (fst t, g (snd t))) (enumerate 0 xs) = enumerate 0 (map g xs)"
  by (simp add: enumerate_eq_zip zip_map2 case_prod_beta)

lemma starmap_ok:
  assumes "\<forall>f \<in> set argsR. \<exists>r. task_result bufsize w f = Inr r"
  shows "starmap POOLSIZE sched bufsize w argsR printer =
     Inr (map (task_outcome bufsize w) argsR,
          run_ops (ops_of (interleave POOLSIZE sched
                     (map (call_events bufsize w) (enumerate 0 argsR)))) printer)"
proof -
  let ?qs = "map (call_events bufsize w) (enumerate 0 argsR)"
  let ?es = "interleave POOLSIZE sched ?qs"
  have ok: "\<forall>t \<in> set (enumerate 0 argsR). \<exists>r. task_result bufsize w (snd t) = Inr r"
    using assms by (simp add: snd_in_enumerate)
  have "\<forall>e. Raise e \<notin> set ?es"
    using events_no_raise [OF ok] by (simp add: set_interleave)
  then have ex: "exec ?es printer (replicate (length argsR) None) =
     Inr (foldl (\<lambda>rs t. rs[fst t := snd t]) (replicate (length argsR) None) (stores_of ?es),
          run_ops (ops_of ?es) printer)"
    by (rule exec_ok)
  have "mset (stores_of ?es) = mset (stores_of (concat ?qs))"
    by (rule mset_stores_of) (rule mset_interleave)
  also have "stores_of (concat ?qs) = enumerate 0 (map (task_outcome bufsize w) argsR)"
    by (simp only: events_stores [OF ok] enumerate_map_outcome)
  finally have "foldl (\<lambda>rs t. rs[fst t := (\<lambda>x. x) (snd t)])
        (replicate (length (map (task_outcome bufsize w) argsR)) None) (stores_of ?es)
      = map (\<lambda>x. x) (map (task_outcome bufsize w) argsR)"
    by (rule store_permutation)
  then have "foldl (\<lambda>rs t. rs[fst t := snd t]) (replicate (length argsR) None) (stores_of ?es)
      = map (task_outcome bufsize w) argsR"
    by simp
  with ex show ?thesis
    by (simp add: starmap_def)
qed

lemma starmap_raises:
  assumes "\<exists>f \<in> set argsR. \<exists>e. task_result bufsize w f = Inl e"
  shows "\<exists>e. starmap POOLSIZE sched bufsize w argsR printer = Inl e"
proof -
  from assms obtain f where f: "f \<in> set argsR" and "\<exists>e. task_result bufsize w f = Inl e"
    by (rule bexE)
  then obtain e where e: "task_result bufsize w f = Inl e"
    by (elim exE)
  from in_enumerate_snd [OF f] obtain t where t: "t \<in> set (enumerate 0 argsR)" and st: "snd t = f"
    by (rule bexE)
  from e st have "task_result bufsize w (snd t) = Inl e"
    by simp
  with t have "Raise e \<in> set (concat (map (call_events bufsize w) (enumerate 0 argsR)))"
    by (rule events_raise)
  then have "Raise e \<in> set (interleave POOLSIZE sched
      (map (call_events bufsize w) (enumerate 0 argsR)))"
    by (simp only: set_interleave)
  then show ?thesis
    unfolding starmap_def by (rule exec_raises)
qed

lemma starmap_one_worker:
  "starmap 1 sched bufsize w argsR printer
     = run_tasks bufsize w (enumerate 0 argsR) printer (replicate (length argsR) None)"
  by (simp add: starmap_def interleave_one exec_concat_run_tasks)

lemma build_digest_map_ok:
  assumes "1 \<le> POOLSIZE" and "wopen w fname"
    and "\<forall>f \<in> set (allfiles w topdir). \<exists>r. task_result bufsize w f = Inr r"
  shows "build_digest_map POOLSIZE sched bufsize w topdir fname =
     (case dict (map (task_outcome bufsize w) (allfiles w topdir)) Map.empty of
        Inl e \<Rightarrow> Inl e
      | Inr m \<Rightarrow>
          Inr (m, final (run_ops (ops_of (interleave POOLSIZE sched
                   (map (call_events bufsize w) (enumerate 0 (allfiles w topdir))))) notify_init)))"
  using assms by (simp add: build_digest_map_def starmap_ok Let_def)



lemma run_ops_calls: "run_ops (concat (map sink_ops rs)) printer = report_all (pairs_of rs) printer"
proof (induction rs arbitrary: printer)
  case Nil
  show ?case by (simp add: run_ops_Nil pairs_of_Nil)
next
  case (Cons r rs)
  show ?case
  proof (cases r)
    case None
    then show ?thesis
      by (simp add: Cons.IH pairs_of_Cons)
  next
    case (Some pd)
    obtain p d where pd: "pd = (p, d)" by (cases pd)
    have "run_ops (concat (map sink_ops (r # rs))) printer
        = run_ops (concat (map sink_ops rs)) (run_ops (sink_ops (Some (p, d))) printer)"
      using Some pd by (simp only: list.map concat.simps run_ops_append)
    with Some pd show ?thesis
      by (simp add: Cons.IH pairs_of_Cons run_ops_msPrint del: sink_ops.simps)
  qed
qed

lemma map_snd_enumerate_fun: "map (\<lambda>t. h (snd t)) (enumerate n xs) = map h xs"
  by (induction xs arbitrary: n) simp_all

lemma one_worker_sink:
  assumes "\<forall>f \<in> set argsR. \<exists>r. task_result bufsize w f = Inr r"
  shows "run_ops (ops_of (interleave 1 sched (map (call_events bufsize w) (enumerate 0 argsR)))) printer
       = report_all (pairs_of (map (task_outcome bufsize w) argsR)) printer"
proof -
  have ok: "\<forall>t \<in> set (enumerate 0 argsR). \<exists>r. task_result bufsize w (snd t) = Inr r"
    using assms by (simp add: snd_in_enumerate)
  have "map (\<lambda>t. sink_ops (task_outcome bufsize w (snd t))) (enumerate 0 argsR)
      = map sink_ops (map (task_outcome bufsize w) argsR)"
    using map_snd_enumerate_fun [of "\<lambda>f. sink_ops (task_outcome bufsize w f)" 0 argsR]
    by (simp add: comp_def)
  moreover have "run_ops (concat (map sink_ops (map (task_outcome bufsize w) argsR))) printer
      = report_all (pairs_of (map (task_outcome bufsize w) argsR)) printer"
    by (rule run_ops_calls)
  ultimately show ?thesis
    by (simp only: interleave_one events_ops [OF ok])
qed

lemma build_digest_map_one_worker:
  assumes "wopen w fname"
    and "\<forall>f \<in> set (allfiles w topdir). \<exists>r. task_result bufsize w f = Inr r"
  shows "build_digest_map 1 sched bufsize w topdir fname =
     (case dict (map (task_outcome bufsize w) (allfiles w topdir)) Map.empty of
        Inl e \<Rightarrow> Inl e
      | Inr m \<Rightarrow>
          Inr (m, final (report_all (pairs_of (map (task_outcome bufsize w) (allfiles w topdir)))
                   notify_init)))"
  using assms one_worker_sink [OF assms(2), of sched notify_init]
  by (simp add: build_digest_map_ok split: sum.splits)

lemma task_result_readable:
  assumes "fopen w filename = Inr f" and "bad f = None" and "0 < bufsize"
  shows "task_result bufsize w filename = Inr (Some (filename, hex (sha512 (contents f))))"
  using assms by (simp add: task_result_def compute_digest_readable)


lemma task_result_locked:
  "fopen w filename = Inl IOError \<Longrightarrow> task_result bufsize w filename = Inr None"
  by (simp add: task_result_def compute_digest_locked)


lemma allfiles_scenario:
  "allfiles (scenario locked broken) ''r'' = [''r/a.txt'', ''r/b.txt'', ''r/sub/c.txt'']"
  by (simp add: allfiles_def os_walk_def scenario_def scenario_tree_def join_def)

lemma report_all_xcount: "xcount (report_all recs printer) = xcount printer + length recs"
  by (induction recs printer rule: report_all.induct) (simp_all add: msPrint_def Let_def)


lemma report_all_console:
  "console (report_all recs printer) = console printer @ progress_lines (Suc (xcount printer)) recs"
  by (induction recs printer rule: report_all.induct) (simp_all add: msPrint_def Let_def)



lemma scenario_task_result_ok:
  assumes "p \<in> {''r/a.txt'', ''r/b.txt'', ''r/sub/c.txt''}" and "p \<notin> set locked" and "p \<notin> set broken"
    and "0 < bufsize"
  shows "task_result bufsize (scenario locked broken) p = Inr (Some (p, scenario_digest p))"
proof -
  from assms have "fopen (scenario locked broken) p = Inr \<lparr>contents = scenario_bytes p, bad = None\<rparr>"
    by (simp add: scenario_fopen_ok)
  from task_result_readable [OF this _ assms(4)] show ?thesis
    by (simp add: scenario_digest_def)
qed

lemma scenario_task_result_locked:
  "p \<in> set locked \<Longrightarrow> task_result bufsize (scenario locked broken) p = Inr None"
  by (simp add: task_result_locked scenario_fopen_locked)

lemma scenario_wopen: "wopen (scenario locked broken) fname"
  by (simp add: scenario_def)

lemma scenario_run_one_worker:
  "build_digest_map 1 sched 2 (scenario [] []) ''r'' ''1core.txt'' =
     Inr ([''r/a.txt'' \<mapsto> scenario_digest ''r/a.txt'', ''r/b.txt'' \<mapsto> scenario_digest ''r/b.txt'',
           ''r/sub/c.txt'' \<mapsto> scenario_digest ''r/sub/c.txt''],
          final (report_all [(''r/a.txt'', scenario_digest ''r/a.txt''),
                             (''r/b.txt'', scenario_digest ''r/b.txt''),
                             (''r/sub/c.txt'', scenario_digest ''r/sub/c.txt'')] notify_init))"
proof -
  have a: "task_result 2 (scenario [] []) ''r/a.txt'' = Inr (Some (''r/a.txt'', scenario_digest ''r/a.txt''))"
    by (rule scenario_task_result_ok) simp_all
  have b: "task_result 2 (scenario [] []) ''r/b.txt'' = Inr (Some (''r/b.txt'', scenario_digest ''r/b.txt''))"
    by (rule scenario_task_result_ok) simp_all
  have c: "task_result 2 (scenario [] []) ''r/sub/c.txt''
      = Inr (Some (''r/sub/c.txt'', scenario_digest ''r/sub/c.txt''))"
    by (rule scenario_task_result_ok) simp_all
  have ok: "\<forall>f \<in> set (allfiles (scenario [] []) ''r''). \<exists>r. task_result 2 (scenario [] []) f = Inr r"
    by (simp add: allfiles_scenario a b c)
  show ?thesis
    by (simp add: build_digest_map_one_worker [OF scenario_wopen ok] allfiles_scenario
        task_outcome_def a b c pairs_of_Cons pairs_of_Nil)
qed




subsection \<open>The numbers on the console\<close>

lemma decimal_value_snoc: "decimal_value (s @ [c]) = 10 * decimal_value s + (of_char c - 48)"
  by (simp add: decimal_value_def)

lemma decimal_value_digit: "n < 10 \<Longrightarrow> decimal_value [char_of (48 + n)] = n"
  by (simp add: decimal_value_def)

lemma decimal_value_dec: "decimal_value (dec n) = n"
proof (induction n rule: dec.induct)
  case (1 n)
  show ?case
  proof (cases "n < 10")
    case True
    then show ?thesis
      by (subst dec.simps) (simp add: decimal_value_digit)
  next
    case False
    have "n mod 10 < 10"
      by simp
    then have "of_char (char_of (48 + n mod 10) :: char) - 48 = n mod 10"
      by simp
    with False "1.IH" show ?thesis
      by (subst dec.simps) (simp add: decimal_value_snoc del: of_char_of)
  qed
qed

lemma decimal_value_zeros:
  "foldl (\<lambda>a c. 10 * a + (of_char c - 48)) 0 (replicate k (CHR ''0'')) = (0::nat)"
  by (induction k) simp_all

lemma decimal_value_fmt06d: "decimal_value (fmt06d n) = n"
  using decimal_value_dec [of n]
  by (simp add: fmt06d_def decimal_value_def decimal_value_zeros)

lemma progress_lines_zip:
  "progress_lines n recs =
     concat (map (\<lambda>(k, p, d). fmt06d k @ '' > '' @ ljust 125 (take 125 p) @ '' : ''
                              @ ljust 20 (take 20 d) @ [CR])
                 (zip [n..<n + length recs] recs))"
proof (induction recs arbitrary: n)
  case Nil
  show ?case by simp
next
  case (Cons r recs)
  obtain p d where r: "r = (p, d)" by (cases r)
  have "[n..<n + length (r # recs)] = n # [Suc n..<Suc n + length recs]"
    by (subst upt_rec) simp
  with r show ?case
    by (simp add: Cons.IH progress_line_def)
qed

lemma fmt06d_2: "fmt06d 2 = ''000002''"
  by code_simp

lemma fmt06d_3: "fmt06d 3 = ''000003''"
  by code_simp

lemma scenario_events:
  assumes "p \<in> {''r/a.txt'', ''r/b.txt'', ''r/sub/c.txt''}"
  shows "call_events 2 (scenario [] []) (i, p)
       = [Sink Incr, Sink (Print p (scenario_digest p)), Sink (Write p (scenario_digest p)),
          Store i (Some (p, scenario_digest p))]"
proof -
  have "task_result 2 (scenario [] []) p = Inr (Some (p, scenario_digest p))"
    using assms by (intro scenario_task_result_ok) simp_all
  then show ?thesis
    by (simp add: call_events_def)
qed

lemma scenario_overlap_order:
  "ops_of (interleave 16 [0, 1, 0, 1]
     (map (call_events 2 (scenario [] [])) (enumerate 0 [''r/a.txt'', ''r/b.txt'', ''r/sub/c.txt''])))
   = [Incr, Incr,
      Print ''r/a.txt'' (scenario_digest ''r/a.txt''), Print ''r/b.txt'' (scenario_digest ''r/b.txt''),
      Write ''r/a.txt'' (scenario_digest ''r/a.txt''), Write ''r/b.txt'' (scenario_digest ''r/b.txt''),
      Incr, Print ''r/sub/c.txt'' (scenario_digest ''r/sub/c.txt''),
      Write ''r/sub/c.txt'' (scenario_digest ''r/sub/c.txt'')]"
  by (simp add: scenario_events enumerate_eq_zip upt_rec interleave.simps Let_def ops_of_simps)

lemma interleave_Nil: "interleave POOLSIZE sched [] = []"
  by (rule interleave_done) simp

text \<open>
  C3, counterexample: sixteen workers on the tree of the scenario, all three files readable.
  The calls for \<^verbatim>\<open>r/a.txt\<close> and \<^verbatim>\<open>r/b.txt\<close> overlap: both run line 23 before either runs
  line 24. The run completes with three pairs, and its console holds the numbers 2, 2 and 3:
  no line is numbered 1 and two lines are numbered 2.
\<close>

theorem overlapping_reports_repeat_a_number:
  "map_sum id (console \<circ> snd)
     (build_digest_map 16 [0, 1, 0, 1] 2 (scenario [] []) ''r'' ''16proc.txt'')
   = Inr (progress_line 2 ''r/a.txt'' (scenario_digest ''r/a.txt'')
          @ progress_line 2 ''r/b.txt'' (scenario_digest ''r/b.txt'')
          @ progress_line 3 ''r/sub/c.txt'' (scenario_digest ''r/sub/c.txt'')
          @ [LF] @ ''Files Processed:'' @ [TAB] @ fmt06d 3 @ [LF])
   \<and> take 6 (progress_line 2 ''r/a.txt'' (scenario_digest ''r/a.txt'')) = ''000002''
   \<and> take 6 (progress_line 2 ''r/b.txt'' (scenario_digest ''r/b.txt'')) = ''000002''
   \<and> take 6 (progress_line 3 ''r/sub/c.txt'' (scenario_digest ''r/sub/c.txt'')) = ''000003''"
proof -
  let ?w = "scenario [] []"
  have a: "task_result 2 ?w ''r/a.txt'' = Inr (Some (''r/a.txt'', scenario_digest ''r/a.txt''))"
    by (rule scenario_task_result_ok) simp_all
  have b: "task_result 2 ?w ''r/b.txt'' = Inr (Some (''r/b.txt'', scenario_digest ''r/b.txt''))"
    by (rule scenario_task_result_ok) simp_all
  have c: "task_result 2 ?w ''r/sub/c.txt'' = Inr (Some (''r/sub/c.txt'', scenario_digest ''r/sub/c.txt''))"
    by (rule scenario_task_result_ok) simp_all
  have ok: "\<forall>f \<in> set (allfiles ?w ''r''). \<exists>r. task_result 2 ?w f = Inr r"
    by (simp add: allfiles_scenario a b c)
  have p16: "(1::int) \<le> 16"
    by simp
  let ?sink = "run_ops (ops_of (interleave 16 [0, 1, 0, 1]
      (map (call_events 2 ?w) (enumerate 0 (allfiles ?w ''r''))))) notify_init"
  have d: "dict (map (task_outcome 2 ?w) (allfiles ?w ''r'')) Map.empty
      = Inr [''r/a.txt'' \<mapsto> scenario_digest ''r/a.txt'', ''r/b.txt'' \<mapsto> scenario_digest ''r/b.txt'',
             ''r/sub/c.txt'' \<mapsto> scenario_digest ''r/sub/c.txt'']"
    by (simp add: allfiles_scenario task_outcome_def a b c)
  have "build_digest_map 16 [0, 1, 0, 1] 2 ?w ''r'' ''16proc.txt''
      = Inr ([''r/a.txt'' \<mapsto> scenario_digest ''r/a.txt'', ''r/b.txt'' \<mapsto> scenario_digest ''r/b.txt'',
              ''r/sub/c.txt'' \<mapsto> scenario_digest ''r/sub/c.txt''], final ?sink)"
    by (simp only: build_digest_map_ok [OF p16 scenario_wopen ok] d sum.case)
  then have "map_sum id (console \<circ> snd)
       (build_digest_map 16 [0, 1, 0, 1] 2 ?w ''r'' ''16proc.txt'') = Inr (console (final ?sink))"
    by (simp only: map_sum.simps comp_apply snd_conv)
  also have "console (final ?sink)
      = progress_line 2 ''r/a.txt'' (scenario_digest ''r/a.txt'')
          @ progress_line 2 ''r/b.txt'' (scenario_digest ''r/b.txt'')
          @ progress_line 3 ''r/sub/c.txt'' (scenario_digest ''r/sub/c.txt'')
          @ [LF] @ ''Files Processed:'' @ [TAB] @ fmt06d 3 @ [LF]"
    unfolding allfiles_scenario scenario_overlap_order
    by (simp add: run_ops_def final_def notify_init_def numeral_2_eq_2 numeral_3_eq_3)
  finally have "map_sum id (console \<circ> snd)
     (build_digest_map 16 [0, 1, 0, 1] 2 ?w ''r'' ''16proc.txt'')
   = Inr (progress_line 2 ''r/a.txt'' (scenario_digest ''r/a.txt'')
          @ progress_line 2 ''r/b.txt'' (scenario_digest ''r/b.txt'')
          @ progress_line 3 ''r/sub/c.txt'' (scenario_digest ''r/sub/c.txt'')
          @ [LF] @ ''Files Processed:'' @ [TAB] @ fmt06d 3 @ [LF])" .
  moreover have "take 6 (progress_line 2 p d) = ''000002''" for p d
    by (simp add: progress_line_def fmt06d_2)
  moreover have "take 6 (progress_line 3 p d) = ''000003''" for p d
    by (simp add: progress_line_def fmt06d_3)
  ultimately show ?thesis
    by simp
qed

text \<open>
  C3, as amended: in a completed run with one worker, where the calls of \<open>msPrint\<close> are
  made one after the other, the console holds the progress lines numbered 1, 2, ..., K, one
  for each pair among the results of the pool (the Success outcomes) and in their order,
  followed by the summary with the total K, which is also the value of the counter. The
  number stands in each line as the six or more decimal digits that write it.
\<close>

theorem sequence_numbers_one_worker:
  assumes "build_digest_map 1 sched bufsize w topdir fname = Inr (m, printer)"
  shows "\<exists>results.
           starmap 1 sched bufsize w (allfiles w topdir) notify_init
             = Inr (results, report_all (pairs_of results) notify_init)
         \<and> printer = final (report_all (pairs_of results) notify_init)
         \<and> xcount (printer) = length (pairs_of results)
         \<and> console (printer) =
             concat (map (\<lambda>(n, p, d). fmt06d n @ '' > '' @ ljust 125 (take 125 p) @ '' : ''
                                      @ ljust 20 (take 20 d) @ [CR])
                         (zip [1..<Suc (length (pairs_of results))] (pairs_of results)))
             @ [LF] @ ''Files Processed:'' @ [TAB] @ fmt06d (length (pairs_of results)) @ [LF]
         \<and> (\<forall>n. decimal_value (fmt06d n) = n)"
proof -
  let ?A = "allfiles w topdir"
  let ?results = "map (task_outcome bufsize w) ?A"
  let ?recs = "pairs_of ?results"
  from assms have W: "wopen w fname"
    by (auto simp: build_digest_map_def split: if_splits)
  have ok: "\<forall>f \<in> set ?A. \<exists>r. task_result bufsize w f = Inr r"
  proof (rule ccontr)
    assume "\<not> ?thesis"
    from starmap_raises [OF not_all_ok [OF this]]
    obtain e where "starmap 1 sched bufsize w ?A notify_init = Inl e"
      by (rule exE)
    with assms W show False
      by (simp add: build_digest_map_def Let_def)
  qed
  have s: "starmap 1 sched bufsize w ?A notify_init = Inr (?results, report_all ?recs notify_init)"
    by (simp only: starmap_ok [OF ok] one_worker_sink [OF ok])
  from assms W s have pr: "printer = final (report_all ?recs notify_init)"
    by (auto simp: build_digest_map_def Let_def split: sum.splits)
  have x: "xcount printer = length ?recs"
    by (simp add: pr final_def report_all_xcount notify_init_def)
  have c: "console printer =
             concat (map (\<lambda>(n, p, d). fmt06d n @ '' > '' @ ljust 125 (take 125 p) @ '' : ''
                                      @ ljust 20 (take 20 d) @ [CR])
                         (zip [1..<Suc (length ?recs)] ?recs))
             @ [LF] @ ''Files Processed:'' @ [TAB] @ fmt06d (length ?recs) @ [LF]"
    using progress_lines_zip [of 1 ?recs]
    by (simp add: pr final_def report_all_xcount report_all_console notify_init_def)
  from s pr x c decimal_value_fmt06d show ?thesis
    by blast
qed

theorem sequence_numbers_one_worker_witness:
  "build_digest_map 1 [] 2 (scenario [] []) ''r'' ''1core.txt'' =
     Inr ([''r/a.txt'' \<mapsto> scenario_digest ''r/a.txt'', ''r/b.txt'' \<mapsto> scenario_digest ''r/b.txt'',
           ''r/sub/c.txt'' \<mapsto> scenario_digest ''r/sub/c.txt''],
          final (report_all [(''r/a.txt'', scenario_digest ''r/a.txt''),
                             (''r/b.txt'', scenario_digest ''r/b.txt''),
                             (''r/sub/c.txt'', scenario_digest ''r/sub/c.txt'')] notify_init))
   \<and> (\<exists>results.
           starmap 1 [] 2 (scenario [] []) (allfiles (scenario [] []) ''r'') notify_init
             = Inr (results, report_all (pairs_of results) notify_init)
         \<and> final (report_all [(''r/a.txt'', scenario_digest ''r/a.txt''),
                             (''r/b.txt'', scenario_digest ''r/b.txt''),
                             (''r/sub/c.txt'', scenario_digest ''r/sub/c.txt'')] notify_init) = final (report_all (pairs_of results) notify_init)
         \<and> xcount (final (report_all [(''r/a.txt'', scenario_digest ''r/a.txt''),
                             (''r/b.txt'', scenario_digest ''r/b.txt''),
                             (''r/sub/c.txt'', scenario_digest ''r/sub/c.txt'')] notify_init)) = length (pairs_of results)
         \<and> console (final (report_all [(''r/a.txt'', scenario_digest ''r/a.txt''),
                             (''r/b.txt'', scenario_digest ''r/b.txt''),
                             (''r/sub/c.txt'', scenario_digest ''r/sub/c.txt'')] notify_init)) =
             concat (map (\<lambda>(n, p, d). fmt06d n @ '' > '' @ ljust 125 (take 125 p) @ '' : ''
                                      @ ljust 20 (take 20 d) @ [CR])
                         (zip [1..<Suc (length (pairs_of results))] (pairs_of results)))
             @ [LF] @ ''Files Processed:'' @ [TAB] @ fmt06d (length (pairs_of results)) @ [LF]
         \<and> (\<forall>n. decimal_value (fmt06d n) = n))"
proof (rule conjI)
  show h: "build_digest_map 1 [] 2 (scenario [] []) ''r'' ''1core.txt'' =
     Inr ([''r/a.txt'' \<mapsto> scenario_digest ''r/a.txt'', ''r/b.txt'' \<mapsto> scenario_digest ''r/b.txt'',
           ''r/sub/c.txt'' \<mapsto> scenario_digest ''r/sub/c.txt''],
          final (report_all [(''r/a.txt'', scenario_digest ''r/a.txt''),
                             (''r/b.txt'', scenario_digest ''r/b.txt''),
                             (''r/sub/c.txt'', scenario_digest ''r/sub/c.txt'')] notify_init))"
    by (rule scenario_run_one_worker)
  from sequence_numbers_one_worker [OF h]
  show "\<exists>results.
           starmap 1 [] 2 (scenario [] []) (allfiles (scenario [] []) ''r'') notify_init
             = Inr (results, report_all (pairs_of results) notify_init)
         \<and> final (report_all [(''r/a.txt'', scenario_digest ''r/a.txt''),
                             (''r/b.txt'', scenario_digest ''r/b.txt''),
                             (''r/sub/c.txt'', scenario_digest ''r/sub/c.txt'')] notify_init) = final (report_all (pairs_of results) notify_init)
         \<and> xcount (final (report_all [(''r/a.txt'', scenario_digest ''r/a.txt''),
                             (''r/b.txt'', scenario_digest ''r/b.txt''),
                             (''r/sub/c.txt'', scenario_digest ''r/sub/c.txt'')] notify_init)) = length (pairs_of results)
         \<and> console (final (report_all [(''r/a.txt'', scenario_digest ''r/a.txt''),
                             (''r/b.txt'', scenario_digest ''r/b.txt''),
                             (''r/sub/c.txt'', scenario_digest ''r/sub/c.txt'')] notify_init)) =
             concat (map (\<lambda>(n, p, d). fmt06d n @ '' > '' @ ljust 125 (take 125 p) @ '' : ''
                                      @ ljust 20 (take 20 d) @ [CR])
                         (zip [1..<Suc (length (pairs_of results))] (pairs_of results)))
             @ [LF] @ ''Files Processed:'' @ [TAB] @ fmt06d (length (pairs_of results)) @ [LF]
         \<and> (\<forall>n. decimal_value (fmt06d n) = n)" .
qed

text \<open>
  C1, the failing input: the tree of the scenario with \<^verbatim>\<open>r/b.txt\<close> unreadable (its open
  fails). The worker returns \<open>None\<close> for that file, the other two files are hashed, and the
  run does not return a digest map: \<^verbatim>\<open>dict\<close> raises \<^verbatim>\<open>TypeError\<close> at the \<open>None\<close>.
\<close>

theorem unreadable_file_aborts_run:
  "allfiles (scenario [''r/b.txt''] []) ''r'' = [''r/a.txt'', ''r/b.txt'', ''r/sub/c.txt'']
   \<and> compute_digest 2 (scenario [''r/b.txt''] []) ''r/b.txt'' notify_init = Inr (None, notify_init)
   \<and> task_result 2 (scenario [''r/b.txt''] []) ''r/a.txt''
       = Inr (Some (''r/a.txt'', scenario_digest ''r/a.txt''))
   \<and> task_result 2 (scenario [''r/b.txt''] []) ''r/sub/c.txt''
       = Inr (Some (''r/sub/c.txt'', scenario_digest ''r/sub/c.txt''))
   \<and> build_digest_map 1 [] 2 (scenario [''r/b.txt''] []) ''r'' ''1core.txt'' = Inl TypeError"
proof -
  let ?w = "scenario [''r/b.txt''] []"
  have a: "task_result 2 ?w ''r/a.txt'' = Inr (Some (''r/a.txt'', scenario_digest ''r/a.txt''))"
    by (rule scenario_task_result_ok) simp_all
  have b: "task_result 2 ?w ''r/b.txt'' = Inr None"
    by (rule scenario_task_result_locked) simp
  have c: "task_result 2 ?w ''r/sub/c.txt'' = Inr (Some (''r/sub/c.txt'', scenario_digest ''r/sub/c.txt''))"
    by (rule scenario_task_result_ok) simp_all
  have ok: "\<forall>f \<in> set (allfiles ?w ''r''). \<exists>r. task_result 2 ?w f = Inr r"
    by (simp add: allfiles_scenario a b c)
  have "build_digest_map 1 [] 2 ?w ''r'' ''1core.txt'' = Inl TypeError"
    by (simp add: build_digest_map_ok [OF _ scenario_wopen ok] allfiles_scenario task_outcome_def a b c)
  moreover have "compute_digest 2 ?w ''r/b.txt'' notify_init = Inr (None, notify_init)"
    by (simp add: compute_digest_locked scenario_fopen_locked)
  ultimately show ?thesis
    using a c by (simp add: allfiles_scenario)
qed

text \<open>
  C4, the failing input: the same tree with \<^verbatim>\<open>r/sub/c.txt\<close> unreadable, sixteen workers.
  \<^verbatim>\<open>r/a.txt\<close> and \<^verbatim>\<open>r/b.txt\<close> are readable and are hashed, and no digest map with their
  entries is returned: the run ends in \<^verbatim>\<open>TypeError\<close>, for every order of the calls.
\<close>

theorem readable_files_lost_with_unreadable_sibling:
  "task_result 2 (scenario [''r/sub/c.txt''] []) ''r/a.txt''
       = Inr (Some (''r/a.txt'', scenario_digest ''r/a.txt''))
   \<and> task_result 2 (scenario [''r/sub/c.txt''] []) ''r/b.txt''
       = Inr (Some (''r/b.txt'', scenario_digest ''r/b.txt''))
   \<and> task_result 2 (scenario [''r/sub/c.txt''] []) ''r/sub/c.txt'' = Inr None
   \<and> build_digest_map 16 sched 2 (scenario [''r/sub/c.txt''] []) ''r'' ''16proc.txt'' = Inl TypeError"
proof -
  let ?w = "scenario [''r/sub/c.txt''] []"
  have a: "task_result 2 ?w ''r/a.txt'' = Inr (Some (''r/a.txt'', scenario_digest ''r/a.txt''))"
    by (rule scenario_task_result_ok) simp_all
  have b: "task_result 2 ?w ''r/b.txt'' = Inr (Some (''r/b.txt'', scenario_digest ''r/b.txt''))"
    by (rule scenario_task_result_ok) simp_all
  have c: "task_result 2 ?w ''r/sub/c.txt'' = Inr None"
    by (rule scenario_task_result_locked) simp
  have ok: "\<forall>f \<in> set (allfiles ?w ''r''). \<exists>r. task_result 2 ?w f = Inr r"
    by (simp add: allfiles_scenario a b c)
  have "build_digest_map 16 sched 2 ?w ''r'' ''16proc.txt'' = Inl TypeError"
    by (simp add: build_digest_map_ok [OF _ scenario_wopen ok] allfiles_scenario task_outcome_def a b c)
  with a b c show ?thesis
    by simp
qed

lemma allfiles_no_listing:
  "resolve w topdir = None \<or> resolve w topdir = Some DirNoList \<Longrightarrow> allfiles w topdir = []"
  by (auto simp: allfiles_def os_walk_def)

text \<open>
  C5, counterexample: the root \<^verbatim>\<open>missing\<close> does not exist. The run raises nothing: it
  returns the empty digest map, after the summary with the total 0.
\<close>

theorem missing_root_returns_empty_map:
  "resolve (scenario [] []) ''missing'' = None
   \<and> build_digest_map 1 [] BUFSIZE (scenario [] []) ''missing'' ''1core.txt''
       = Inr (Map.empty, final notify_init)"
  by (simp add: scenario_def build_digest_map_def allfiles_def os_walk_def starmap_def
      interleave_Nil)

text \<open>
  C5, as amended: if the root directory does not exist or cannot be listed, the walk yields
  no file, so that no task is given to the pool, and the run returns the empty digest map
  with the sink finalised at the total 0 (when the pool has at least one worker and the run
  log can be opened).
\<close>

theorem unlistable_root_gives_empty_map:
  assumes "resolve w topdir = None \<or> resolve w topdir = Some DirNoList"
    and "1 \<le> POOLSIZE" and "wopen w fname"
  shows "allfiles w topdir = []
       \<and> build_digest_map POOLSIZE sched bufsize w topdir fname = Inr (Map.empty, final notify_init)"
  using assms
  by (simp add: allfiles_no_listing build_digest_map_def starmap_def interleave_Nil)

theorem unlistable_root_gives_empty_map_witness:
  "(resolve (scenario [] []) ''elsewhere'' = None \<or> resolve (scenario [] []) ''elsewhere'' = Some DirNoList)
   \<and> (1::int) \<le> 16 \<and> wopen (scenario [] []) ''16proc.txt''
   \<and> allfiles (scenario [] []) ''elsewhere'' = []
   \<and> build_digest_map 16 [3, 1] BUFSIZE (scenario [] []) ''elsewhere'' ''16proc.txt''
       = Inr (Map.empty, final notify_init)"
proof -
  have r: "resolve (scenario [] []) ''elsewhere'' = None \<or> resolve (scenario [] []) ''elsewhere'' = Some DirNoList"
    by (simp add: scenario_def)
  have p: "(1::int) \<le> 16"
    by simp
  have o: "wopen (scenario [] []) ''16proc.txt''"
    by (rule scenario_wopen)
  from unlistable_root_gives_empty_map [OF r p o, of "[3, 1]" BUFSIZE] r p o show ?thesis
    by (intro conjI) (erule conjunct1, erule conjunct2 | assumption)+
qed

end
